theory Spec2Isabelle
  imports Main "HOL-Library.Char_ord" "HOL-Library.List_Lexorder" "HOL-Library.AList"
begin

section \<open>EdgeOS blacklist configuration: data model\<close>

text \<open>
  The Go package \<open>edgeos\<close> keeps its configuration in \<open>type tree map[string]*object\<close>.
  Every node and every source is an \<open>*object\<close>; the parser keeps a pointer to the source
  under construction and appends that same pointer to the owning node, so later writes
  through the pointer are visible in the tree.  The model therefore has an explicit store:
  an address is a natural number, the heap maps every address to an object, and a
  possibly-nil pointer is an \<open>addr option\<close> (\<open>None\<close> is \<open>nil\<close>).

  The declaration of \<open>struct object\<close> is not in the modelled files; the record below has
  exactly the fields that \<open>config.go\<close> reads or writes (\<open>file\<close> is written
  \<open>file_loc\<close>).  The embedded \<open>Objects\<close> struct of an object has the single data field
  \<open>x []*object\<close>, here \<open>Objects_x\<close>.
\<close>

type_synonym addr = nat
type_synonym ntype = int

record object =
  desc :: string
  disabled :: bool
  exc :: "string list"
  file_loc :: string
  inc :: "string list"
  ip :: string
  ltype :: string
  name :: string
  nType :: ntype
  prefix :: string
  url :: string
  Objects_x :: "addr option list"

text \<open>
  \<open>Config\<close> embeds the tree.  The tree is an association list (a Go map is finite; a
  lookup of an absent key gives \<open>nil\<close>); \<open>heap\<close> and \<open>nxt\<close> (the next unused address)
  are the store that Go's allocator provides.
\<close>

record Config =
  tree :: "(string \<times> addr) list"
  heap :: "addr \<Rightarrow> object"
  nxt :: addr

text \<open>Of the settings bag \<open>Parms\<close> only the node names are used by the modelled code.\<close>

record Parms =
  Nodes :: "string list"

text \<open>
  Helpers of the package whose bodies are outside the modelled files are parameters:
  \<open>getType\<close> on a string (used as \<open>getType(s).(ntype)\<close>), \<open>getType\<close> on an \<open>ntype\<close>
  (used as \<open>getType(n).(string)\<close>), \<open>strToBool\<close>, and the two \<open>ntype\<close> constants
  \<open>preDomn\<close> and \<open>preHost\<close>.
\<close>

record helpers =
  getTypeOfStr :: "string \<Rightarrow> ntype"
  getTypeOfInt :: "ntype \<Rightarrow> string"
  strToBool :: "string \<Rightarrow> bool"
  preDomn :: ntype
  preHost :: ntype

datatype error = NilPointerDereference | IndexOutOfRange | EmptyConfiguration

definition domains :: string where "domains = ''domains''"
definition hosts :: string where "hosts = ''hosts''"
definition rootNode :: string where "rootNode = ''blacklist''"
definition src :: string where "src = ''source''"
definition files :: string where "files = ''file''"
definition urls :: string where "urls = ''url''"
definition blackhole :: string where "blackhole = ''dns-redirect-ip''"
definition preNoun :: string where "preNoun = ''pre-configured''"
definition ExcDomns :: string where "ExcDomns = ''domn-excludes''"
definition ExcHosts :: string where "ExcHosts = ''host-excludes''"
definition ExcRoots :: string where "ExcRoots = ''root-excludes''"
definition PreDomns :: string where "PreDomns = preNoun @ ''-domain''"
definition PreHosts :: string where "PreHosts = preNoun @ ''-host''"

text \<open>
  Modelled from the spec: \<open>newObject\<close> is not in the modelled files; the spec says a
  node-open line "creates an empty Node", so it is the object with every field at Go's
  zero value.
\<close>

definition newObject :: object where
  "newObject = \<lparr> desc = [], disabled = False, exc = [], file_loc = [], inc = [], ip = [],
     ltype = [], name = [], nType = 0, prefix = [], url = [], Objects_x = [] \<rparr>"

definition alloc :: "object \<Rightarrow> Config \<Rightarrow> addr \<times> Config" where
  "alloc ob c = (nxt c, c\<lparr> heap := (heap c)(nxt c := ob), nxt := Suc (nxt c) \<rparr>)"

definition modify :: "addr \<Rightarrow> (object \<Rightarrow> object) \<Rightarrow> Config \<Rightarrow> Config" where
  "modify a f c = c\<lparr> heap := (heap c)(a := f (heap c a)) \<rparr>"

section \<open>IP inheritance: \<open>getIP\<close> and \<open>validate\<close>\<close>

text \<open>
  \<open>func (b tree) getIP(node string)\<close>: \<open>b[node]\<close> is dereferenced first; \<open>b[rootNode]\<close>
  only when the node's own ip is empty.  Dereferencing an absent entry panics.
\<close>

definition getIP :: "Config \<Rightarrow> string \<Rightarrow> error + string" where
  "getIP c node =
     (case map_of (tree c) node of
        None \<Rightarrow> Inl NilPointerDereference
      | Some a \<Rightarrow>
          if ip (heap c a) = []
          then (case map_of (tree c) rootNode of
                  None \<Rightarrow> Inl NilPointerDereference
                | Some r \<Rightarrow> Inr (ip (heap c r)))
          else Inr (ip (heap c a)))"

text \<open>
  \<open>func (b tree) validate(node string) *Objects\<close>: the loop over \<open>b[node].Objects.x\<close>
  writes through each pointer; the result is the node's own \<open>Objects\<close>, returned here as
  the node's pointer list together with the updated store.
\<close>

fun validate_loop :: "string \<Rightarrow> addr option list \<Rightarrow> Config \<Rightarrow> error + Config" where
  "validate_loop node [] c = Inr c"
| "validate_loop node (None # ps) c = Inl NilPointerDereference"
| "validate_loop node (Some p # ps) c =
     (if ip (heap c p) = []
      then (case getIP c node of
              Inl e \<Rightarrow> Inl e
            | Inr g \<Rightarrow> validate_loop node ps (modify p (\<lambda>ob. ob\<lparr> ip := g \<rparr>) c))
      else validate_loop node ps c)"

definition validate :: "Config \<Rightarrow> string \<Rightarrow> error + (addr option list \<times> Config)" where
  "validate c node =
     (case map_of (tree c) node of
        None \<Rightarrow> Inl NilPointerDereference
      | Some a \<Rightarrow>
          (case validate_loop node (Objects_x (heap c a)) c of
             Inl e \<Rightarrow> Inl e
           | Inr c' \<Rightarrow> Inr (Objects_x (heap c' a), c')))"

section \<open>The parser \<open>ReadCfg\<close>\<close>

text \<open>
  The patterns \<open>regx.Obj\<close> are outside the modelled files.  A line is therefore given by
  what each pattern returns on it: for a pattern whose groups the code reads, \<open>None\<close>
  when \<open>Match\<close> is false and otherwise the groups that \<open>regx.Get\<close> returns (group 1, or
  groups 1 and 2); for the others, whether \<open>Match\<close> is true.  Nothing is assumed about
  which combinations occur: the order of the \<open>switch\<close> decides.
\<close>

record rxline =
  MLTI :: "(string \<times> string) option"
  NODE :: "string option"
  LEAF :: "(string \<times> string) option"
  DSBL :: "string option"
  IPBH :: "string option"
  NAME :: "(string \<times> string) option"
  DESC :: bool
  CMNT :: bool
  MISC :: bool
  RBRC :: bool

text \<open>The local variables of \<open>ReadCfg\<close> (\<open>o\<close> is written \<open>o_ptr\<close>) and the receiver.\<close>

record scan =
  tnode :: string
  leaf :: string
  nodes :: "string list"
  o_ptr :: "addr option"
  cfg :: Config

text \<open>\<open>c.tree[tnode].f = ...\<close>: a write through the pointer stored under \<open>tnode\<close>.\<close>

definition withNode :: "scan \<Rightarrow> (object \<Rightarrow> object) \<Rightarrow> error + scan" where
  "withNode s f =
     (case map_of (tree (cfg s)) (tnode s) of
        None \<Rightarrow> Inl NilPointerDereference
      | Some a \<Rightarrow> Inr (s\<lparr> cfg := modify a f (cfg s) \<rparr>))"

text \<open>\<open>o.f = ...\<close>: a write through the pending source pointer.\<close>

definition withSrc :: "scan \<Rightarrow> (object \<Rightarrow> object) \<Rightarrow> error + scan" where
  "withSrc s f =
     (case o_ptr s of
        None \<Rightarrow> Inl NilPointerDereference
      | Some a \<Rightarrow> Inr (s\<lparr> cfg := modify a f (cfg s) \<rparr>))"

text \<open>
  The \<open>file\<close> and \<open>url\<close> branches: two writes through \<open>o\<close>, then
  \<open>c.tree[tnode].Objects.x = append(c.tree[tnode].Objects.x, o)\<close>.
\<close>

definition addSource :: "scan \<Rightarrow> (object \<Rightarrow> object) \<Rightarrow> error + scan" where
  "addSource s f =
     (case o_ptr s of
        None \<Rightarrow> Inl NilPointerDereference
      | Some a \<Rightarrow>
          (let c1 = modify a f (cfg s) in
           case map_of (tree c1) (tnode s) of
             None \<Rightarrow> Inl NilPointerDereference
           | Some n \<Rightarrow>
               Inr (s\<lparr> cfg := modify n (\<lambda>ob. ob\<lparr> Objects_x := Objects_x ob @ [Some a] \<rparr>) c1 \<rparr>)))"

definition caseMLTI :: "string \<times> string \<Rightarrow> scan \<Rightarrow> error + scan" where
  "caseMLTI g s =
     (if fst g = ''exclude'' then withNode s (\<lambda>ob. ob\<lparr> exc := exc ob @ [snd g] \<rparr>)
      else if fst g = ''include'' then withNode s (\<lambda>ob. ob\<lparr> inc := inc ob @ [snd g] \<rparr>)
      else Inr s)"

definition caseNODE :: "string \<Rightarrow> scan \<Rightarrow> scan" where
  "caseNODE g s =
     (let (a, c') = alloc newObject (cfg s) in
      s\<lparr> tnode := g, nodes := nodes s @ [g],
         cfg := c'\<lparr> tree := AList.update g a (tree c') \<rparr> \<rparr>)"

definition caseLEAF :: "helpers \<Rightarrow> string \<times> string \<Rightarrow> scan \<Rightarrow> scan" where
  "caseLEAF hp g s =
     (let s1 = s\<lparr> leaf := snd g, nodes := nodes s @ [fst g] \<rparr> in
      if fst g = src
      then (let (a, c') = alloc (newObject\<lparr> name := snd g,
                                            nType := getTypeOfStr hp (tnode s) \<rparr>) (cfg s)
            in s1\<lparr> o_ptr := Some a, cfg := c' \<rparr>)
      else s1)"

definition caseDSBL :: "helpers \<Rightarrow> string \<Rightarrow> scan \<Rightarrow> error + scan" where
  "caseDSBL hp g s = withNode s (\<lambda>ob. ob\<lparr> disabled := strToBool hp g \<rparr>)"

definition caseIPBH :: "string \<Rightarrow> scan \<Rightarrow> error + scan" where
  "caseIPBH g s = withNode s (\<lambda>ob. ob\<lparr> ip := g \<rparr>)"

definition caseNAME :: "string \<times> string \<Rightarrow> scan \<Rightarrow> error + scan" where
  "caseNAME g s =
     (if fst g = ''description'' then withSrc s (\<lambda>ob. ob\<lparr> desc := snd g \<rparr>)
      else if fst g = blackhole then withSrc s (\<lambda>ob. ob\<lparr> ip := snd g \<rparr>)
      else if fst g = files
        then addSource s (\<lambda>ob. ob\<lparr> file_loc := snd g, ltype := fst g \<rparr>)
      else if fst g = ''prefix'' then withSrc s (\<lambda>ob. ob\<lparr> prefix := snd g \<rparr>)
      else if fst g = urls
        then addSource s (\<lambda>ob. ob\<lparr> ltype := fst g, url := snd g \<rparr>)
      else Inr s)"

definition caseRBRC :: "scan \<Rightarrow> scan" where
  "caseRBRC s =
     (if length (nodes s) > 1
      then (let ns = butlast (nodes s) in s\<lparr> nodes := ns, tnode := last ns \<rparr>)
      else s)"

text \<open>The cases of the \<open>switch\<close> after the \<open>IPBH\<close> case.\<close>

definition lineTail :: "rxline \<Rightarrow> scan \<Rightarrow> error + scan" where
  "lineTail l s =
     (case NAME l of
        Some g \<Rightarrow> caseNAME g s
      | None \<Rightarrow>
          if DESC l \<or> CMNT l \<or> MISC l then Inr s
          else if RBRC l then Inr (caseRBRC s)
          else Inr s)"

text \<open>
  One iteration of the loop.  The fifth case is \<open>rx.IPBH.Match(line) && nodes[len(nodes)-1]
  != src\<close>: when the pattern matches, the index expression is evaluated and panics on an
  empty \<open>nodes\<close>; when the top is \<open>src\<close> the case is not taken and the later cases are
  tried.
\<close>

definition readLine :: "helpers \<Rightarrow> rxline \<Rightarrow> scan \<Rightarrow> error + scan" where
  "readLine hp l s =
     (case MLTI l of
        Some g \<Rightarrow> caseMLTI g s
      | None \<Rightarrow>
     (case NODE l of
        Some g \<Rightarrow> Inr (caseNODE g s)
      | None \<Rightarrow>
     (case LEAF l of
        Some g \<Rightarrow> Inr (caseLEAF hp g s)
      | None \<Rightarrow>
     (case DSBL l of
        Some g \<Rightarrow> caseDSBL hp g s
      | None \<Rightarrow>
     (case IPBH l of
        Some g \<Rightarrow>
          if nodes s = [] then Inl IndexOutOfRange
          else if last (nodes s) \<noteq> src then caseIPBH g s
          else lineTail l s
      | None \<Rightarrow> lineTail l s)))))"

fun scanLines :: "helpers \<Rightarrow> rxline list \<Rightarrow> scan \<Rightarrow> error + scan" where
  "scanLines hp [] s = Inr s"
| "scanLines hp (l # ls) s =
     (case readLine hp l s of Inl e \<Rightarrow> Inl e | Inr s' \<Rightarrow> scanLines hp ls s')"

definition initScan :: "Config \<Rightarrow> scan" where
  "initScan c = \<lparr> tnode = [], leaf = [], nodes = [], o_ptr = None, cfg = c \<rparr>"

text \<open>\<open>len(c.tree)\<close>: the number of keys.\<close>

definition treeLen :: "Config \<Rightarrow> nat" where
  "treeLen c = length (remdups (map fst (tree c)))"

text \<open>
  \<open>ReadCfg\<close> returns \<open>Inl EmptyConfiguration\<close> for the error value it returns, \<open>Inl\<close> of a
  panic when the scan faults, and otherwise the configuration it has filled in.
\<close>

definition ReadCfg :: "helpers \<Rightarrow> Config \<Rightarrow> rxline list \<Rightarrow> error + Config" where
  "ReadCfg hp c ls =
     (case scanLines hp ls (initScan c) of
        Inl e \<Rightarrow> Inl e
      | Inr s \<Rightarrow> if treeLen (cfg s) < 1 then Inl EmptyConfiguration else Inr (cfg s))"

text \<open>The configuration \<open>ReadCfg\<close> is given: an empty tree over an empty store.\<close>

definition emptyConfig :: Config where
  "emptyConfig = \<lparr> tree = [], heap = (\<lambda>_. newObject), nxt = 0 \<rparr>"

section \<open>Views\<close>

text \<open>
  A view is the \<open>x\<close> of a fresh \<open>Objects\<close>: a list of possibly-nil pointers.  \<open>addExc\<close>
  builds one object; the fields of the literal are evaluated in source order.
\<close>

definition addExc :: "helpers \<Rightarrow> Config \<Rightarrow> string \<Rightarrow> error + (addr option list \<times> Config)" where
  "addExc hp c node =
     (let lt = (if node = domains then ExcDomns
                else if node = hosts then ExcHosts
                else if node = rootNode then ExcRoots
                else [])
      in case map_of (tree c) node of
           None \<Rightarrow> Inl NilPointerDereference
         | Some a \<Rightarrow>
             (case getIP c node of
                Inl e \<Rightarrow> Inl e
              | Inr g \<Rightarrow>
                  (let (b, c') = alloc (newObject\<lparr> desc := lt @ '' exclusions'',
                                                    exc := exc (heap c a), ip := g, ltype := lt,
                                                    name := lt, nType := getTypeOfStr hp lt \<rparr>) c
                   in Inr ([Some b], c'))))"

text \<open>\<open>fmt.Sprintf("%v", n)\<close> for a length: the decimal digits.\<close>

fun decimal :: "nat \<Rightarrow> string" where
  "decimal n =
     (if n < 10 then [''0123456789'' ! n]
      else decimal (n div 10) @ [''0123456789'' ! (n mod 10)])"

declare decimal.simps [simp del]

definition addInc :: "helpers \<Rightarrow> Config \<Rightarrow> string \<Rightarrow> error + (addr option \<times> Config)" where
  "addInc hp c node =
     (case map_of (tree c) node of
        None \<Rightarrow> Inl NilPointerDereference
      | Some a \<Rightarrow>
          (let incl = inc (heap c a) in
           if length incl > 0
           then (let lt = (if node = domains then getTypeOfInt hp (preDomn hp)
                           else if node = hosts then getTypeOfInt hp (preHost hp)
                           else []);
                     n = (if node = domains \<or> node = hosts then getTypeOfStr hp lt else 0)
                 in case getIP c node of
                      Inl e \<Rightarrow> Inl e
                    | Inr g \<Rightarrow>
                        (let (b, c') = alloc (newObject\<lparr> desc := lt @ '' blacklist content'',
                                   inc := incl, ip := g, ltype := lt,
                                   name := ''includes.['' @ decimal (length incl) @ '']'',
                                   nType := n \<rparr>) c
                         in Inr (Some b, c')))
           else Inr (None, c)))"

text \<open>
  Modelled from the spec: \<open>Objects.addObj\<close> is not in the modelled files; the spec's
  all-sources view "returns the node's sources, lazily resolving each object's ip", so it
  appends the list that \<open>validate\<close> returns.
\<close>

definition addObj :: "addr option list \<Rightarrow> Config \<Rightarrow> string \<Rightarrow> error + (addr option list \<times> Config)" where
  "addObj ox c node =
     (case validate c node of Inl e \<Rightarrow> Inl e | Inr (obj, c') \<Rightarrow> Inr (ox @ obj, c'))"

text \<open>
  \<open>GetAll\<close>: the loop state is \<open>newDomns\<close>, \<open>newHosts\<close>, \<open>o.x\<close> and the store.  The inner
  loop runs over the requested types for one node.  In its default branch every element
  of \<open>obj\<close> has already been dereferenced by \<open>validate\<close>.
\<close>

type_synonym getall_state = "bool \<times> bool \<times> addr option list \<times> Config"

fun GetAll_ltypes :: "helpers \<Rightarrow> string \<Rightarrow> string list \<Rightarrow> getall_state \<Rightarrow> error + getall_state" where
  "GetAll_ltypes hp node [] st = Inr st"
| "GetAll_ltypes hp node (lt # lts) (newDomns, newHosts, ox, c) =
     (if lt = PreDomns then
        (if newDomns \<and> node = domains
         then (case addInc hp c node of
                 Inl e \<Rightarrow> Inl e
               | Inr (r, c') \<Rightarrow> GetAll_ltypes hp node lts (False, newHosts, ox @ [r], c'))
         else GetAll_ltypes hp node lts (newDomns, newHosts, ox, c))
      else if lt = PreHosts then
        (if newHosts \<and> node = hosts
         then (case addInc hp c node of
                 Inl e \<Rightarrow> Inl e
               | Inr (r, c') \<Rightarrow> GetAll_ltypes hp node lts (newDomns, False, ox @ [r], c'))
         else GetAll_ltypes hp node lts (newDomns, newHosts, ox, c))
      else
        (case validate c node of
           Inl e \<Rightarrow> Inl e
         | Inr (obj, c') \<Rightarrow>
             GetAll_ltypes hp node lts
               (newDomns, newHosts,
                ox @ filter (\<lambda>q. case q of None \<Rightarrow> False | Some b \<Rightarrow> ltype (heap c' b) = lt) obj,
                c')))"

fun GetAll_nodes :: "helpers \<Rightarrow> string list option \<Rightarrow> string list \<Rightarrow> getall_state \<Rightarrow> error + getall_state" where
  "GetAll_nodes hp ltypes [] st = Inr st"
| "GetAll_nodes hp ltypes (node # ns) (newDomns, newHosts, ox, c) =
     (case ltypes of
        None \<Rightarrow>
          (case addObj ox c node of
             Inl e \<Rightarrow> Inl e
           | Inr (ox', c') \<Rightarrow> GetAll_nodes hp ltypes ns (newDomns, newHosts, ox', c'))
      | Some lts \<Rightarrow>
          (case GetAll_ltypes hp node lts (newDomns, newHosts, ox, c) of
             Inl e \<Rightarrow> Inl e
           | Inr st' \<Rightarrow> GetAll_nodes hp ltypes ns st'))"

definition GetAll :: "helpers \<Rightarrow> Parms \<Rightarrow> Config \<Rightarrow> string list option \<Rightarrow> error + (addr option list \<times> Config)" where
  "GetAll hp p c ltypes =
     (case GetAll_nodes hp ltypes (Nodes p) (True, True, [], c) of
        Inl e \<Rightarrow> Inl e
      | Inr (_, _, ox, c') \<Rightarrow> Inr (ox, c'))"

section \<open>Entry sets\<close>

text \<open>\<open>type entry map[string]int\<close>; the lock of \<open>list\<close> has no sequential effect.\<close>

type_synonym entry = "string \<rightharpoonup> int"


definition updateEntry :: "string list \<Rightarrow> entry" where
  "updateEntry data = fold (\<lambda>k l. l(k \<mapsto> 0)) data Map.empty"

text \<open>\<open>c.Nodes()\<close>: the keys of the tree, sorted.\<close>

definition NodesOf :: "Config \<Rightarrow> string list" where
  "NodesOf c = sort (remdups (map fst (tree c)))"

text \<open>
  \<open>excludes(nodes ...string)\<close>: with no arguments (\<open>nodes == nil\<close>, here \<open>None\<close>) the
  exclude lists of all nodes are appended, otherwise those of the named nodes.
\<close>

fun excludes_all :: "Config \<Rightarrow> string list \<Rightarrow> string list \<Rightarrow> error + string list" where
  "excludes_all c [] acc = Inr acc"
| "excludes_all c (k # ks) acc =
     (case map_of (tree c) k of
        None \<Rightarrow> Inl NilPointerDereference
      | Some a \<Rightarrow>
          excludes_all c ks
            (if length (exc (heap c a)) \<noteq> 0 then acc @ exc (heap c a) else acc))"

fun excludes_named :: "Config \<Rightarrow> string list \<Rightarrow> string list \<Rightarrow> error + string list" where
  "excludes_named c [] acc = Inr acc"
| "excludes_named c (node # ns) acc =
     (case map_of (tree c) node of
        None \<Rightarrow> Inl NilPointerDereference
      | Some a \<Rightarrow> excludes_named c ns (acc @ exc (heap c a)))"

definition excludes :: "Config \<Rightarrow> string list option \<Rightarrow> error + entry" where
  "excludes c ns =
     (case (case ns of None \<Rightarrow> excludes_all c (NodesOf c) []
                     | Some l \<Rightarrow> excludes_named c l []) of
        Inl e \<Rightarrow> Inl e
      | Inr ex \<Rightarrow> Inr (updateEntry ex))"





section \<open>Kinds of line\<close>


definition nodeOpen :: "rxline \<Rightarrow> bool" where
  "nodeOpen l = (MLTI l = None \<and> NODE l \<noteq> None)"



definition ipLine :: "rxline \<Rightarrow> bool" where
  "ipLine l =
     (MLTI l = None \<and> NODE l = None \<and> LEAF l = None \<and> DSBL l = None \<and> IPBH l \<noteq> None)"


definition closeBrace :: "rxline \<Rightarrow> bool" where
  "closeBrace l =
     (MLTI l = None \<and> NODE l = None \<and> LEAF l = None \<and> DSBL l = None \<and> IPBH l = None \<and>
      NAME l = None \<and> \<not> DESC l \<and> \<not> CMNT l \<and> \<not> MISC l \<and> RBRC l)"


text \<open>What holds of every state the scan reaches from an empty tree.\<close>

definition scanInv :: "scan \<Rightarrow> bool" where
  "scanInv s =
     ((tree (cfg s) = [] \<or> nodes s \<noteq> []) \<and>
      (\<forall>a \<in> snd ` set (tree (cfg s)). a < nxt (cfg s)) \<and>
      (case o_ptr s of
         None \<Rightarrow> True
       | Some a \<Rightarrow> a < nxt (cfg s) \<and> a \<notin> snd ` set (tree (cfg s))))"

text \<open>The exclude list of a node in the result of \<open>ReadCfg\<close>, when there is one.\<close>

definition nodeExc :: "error + Config \<Rightarrow> string \<Rightarrow> string list option" where
  "nodeExc r k =
     (case r of
        Inl e \<Rightarrow> None
      | Inr c \<Rightarrow> (case map_of (tree c) k of None \<Rightarrow> None | Some a \<Rightarrow> Some (exc (heap c a))))"

text \<open>The exclude lists of the objects of a view (none for a nil entry or a fault).\<close>

definition viewExcludes :: "error + (addr option list \<times> Config) \<Rightarrow> string list list" where
  "viewExcludes r =
     (case r of
        Inl e \<Rightarrow> []
      | Inr v \<Rightarrow> map (\<lambda>q. case q of None \<Rightarrow> [] | Some b \<Rightarrow> exc (heap (snd v) b)) (fst v))"

section \<open>Concrete inputs\<close>

text \<open>A root node with a blackhole address and a \<open>domains\<close> node without one.\<close>

definition cfgTwo :: Config where
  "cfgTwo = \<lparr> tree = [(''blacklist'', 0), (''domains'', 1)],
       heap = (\<lambda>_. newObject)(0 := newObject\<lparr> ip := ''0.0.0.0'' \<rparr>), nxt = 2 \<rparr>"

text \<open>
  The same, where \<open>domains\<close> has two sources: the first without an ip of its own, the
  second with one.
\<close>

definition cfgSrc :: Config where
  "cfgSrc = \<lparr> tree = [(''blacklist'', 0), (''domains'', 1)],
       heap = (\<lambda>_. newObject)
         (0 := newObject\<lparr> ip := ''0.0.0.0'' \<rparr>,
          1 := newObject\<lparr> Objects_x := [Some 2, Some 3] \<rparr>,
          2 := newObject\<lparr> name := ''first'', ltype := ''url'' \<rparr>,
          3 := newObject\<lparr> name := ''second'', ltype := ''file'', ip := ''10.0.0.1'' \<rparr>),
       nxt = 4 \<rparr>"

text \<open>A \<open>domains\<close> node with one exclude entry under a root without any.\<close>

definition cfgExc :: Config where
  "cfgExc = \<lparr> tree = [(''blacklist'', 0), (''domains'', 1)],
       heap = (\<lambda>_. newObject)
         (0 := newObject\<lparr> ip := ''0.0.0.0'' \<rparr>,
          1 := newObject\<lparr> exc := [''example.org''] \<rparr>),
       nxt = 2 \<rparr>"

text \<open>A \<open>domains\<close> node with two include entries.\<close>

definition cfgInc :: Config where
  "cfgInc = \<lparr> tree = [(''blacklist'', 0), (''domains'', 1)],
       heap = (\<lambda>_. newObject)
         (0 := newObject\<lparr> ip := ''0.0.0.0'' \<rparr>,
          1 := newObject\<lparr> inc := [''adsrvr.org'', ''doubleclick.net''] \<rparr>),
       nxt = 2 \<rparr>"

text \<open>Settings with the usual node names, and settings that name no node.\<close>

definition parmsStd :: Parms where
  "parmsStd = \<lparr> Nodes = [domains, hosts] \<rparr>"

definition parmsNone :: Parms where
  "parmsNone = \<lparr> Nodes = [] \<rparr>"

text \<open>Lines, given by the patterns that match them.\<close>

definition noMatch :: rxline where
  "noMatch = \<lparr> MLTI = None, NODE = None, LEAF = None, DSBL = None, IPBH = None, NAME = None,
      DESC = False, CMNT = False, MISC = False, RBRC = False \<rparr>"

definition lineExclude :: "string \<Rightarrow> rxline" where
  "lineExclude v = noMatch\<lparr> MLTI := Some (''exclude'', v) \<rparr>"

definition lineNode :: "string \<Rightarrow> rxline" where
  "lineNode k = noMatch\<lparr> NODE := Some k \<rparr>"


definition lineIP :: "string \<Rightarrow> rxline" where
  "lineIP v = noMatch\<lparr> IPBH := Some v, NAME := Some (blackhole, v) \<rparr>"

definition lineName :: "string \<Rightarrow> string \<Rightarrow> rxline" where
  "lineName k v = noMatch\<lparr> NAME := Some (k, v) \<rparr>"

definition lineBrace :: rxline where
  "lineBrace = noMatch\<lparr> RBRC := True \<rparr>"

text \<open>One choice of the helper functions.\<close>

definition someHelpers :: helpers where
  "someHelpers = \<lparr> getTypeOfStr = (\<lambda>s. if s = PreDomns then 6 else if s = PreHosts then 7 else 0),
      getTypeOfInt = (\<lambda>n. if n = 6 then PreDomns else if n = 7 then PreHosts else ''unknown''),
      strToBool = (\<lambda>s. s = ''true''), preDomn = 6, preHost = 7 \<rparr>"

text \<open>
  Scan states: inside \<open>domains\<close> under \<open>blacklist\<close> over \<open>cfgTwo\<close>, and the state after
  a first line that opens \<open>blacklist\<close>.
\<close>

definition scanDeep :: scan where
  "scanDeep = \<lparr> tnode = ''domains'', leaf = [], nodes = [''blacklist'', ''domains''],
      o_ptr = None, cfg = cfgTwo \<rparr>"

definition scanRoot :: scan where
  "scanRoot = caseNODE ''blacklist'' (initScan emptyConfig)"



section \<open>Resolved IP of a node\<close>

text \<open>
  C2.  In a tree that holds the root node \<open>blacklist\<close> and a node N, the resolved IP of N
  is N's own ip when that is non-empty and the root's ip when it is empty; with both
  empty the resolved IP is the empty string.
\<close>

theorem getIP_inherits:
  assumes "map_of (tree c) rootNode = Some r" and "map_of (tree c) n = Some a"
  shows "getIP c n = Inr (if ip (heap c a) \<noteq> [] then ip (heap c a) else ip (heap c r))
       \<and> (ip (heap c a) = [] \<and> ip (heap c r) = [] \<longrightarrow> getIP c n = Inr [])"
  using assms by (simp add: getIP_def)

theorem getIP_inherits_witness:
  "map_of (tree cfgTwo) rootNode = Some 0 \<and> map_of (tree cfgTwo) ''domains'' = Some 1
   \<and> getIP cfgTwo ''domains'' = Inr ''0.0.0.0''"
  using getIP_inherits [of cfgTwo 0 "''domains''" 1]
  by (simp add: cfgTwo_def rootNode_def newObject_def)

section \<open>Lazy resolution of source ips\<close>

text \<open>
  The write \<open>obj.ip = b.getIP(node)\<close> happens only where \<open>obj.ip\<close> is empty, and it does
  not change what \<open>getIP\<close> returns for the node, even when a source pointer is the node
  or the root itself.
\<close>

lemma getIP_modify_stable:
  assumes "getIP c n = Inr g" and "ip (heap c p) = []"
  shows "getIP (modify p (\<lambda>ob. ob\<lparr> ip := g \<rparr>) c) n = Inr g"
  using assms
  by (auto simp: getIP_def modify_def split: option.splits if_splits)

lemma validate_loop_result:
  assumes "getIP c n = Inr g" and "None \<notin> set ps"
  shows "\<exists>c'. validate_loop n ps c = Inr c' \<and> tree c' = tree c \<and> nxt c' = nxt c
     \<and> getIP c' n = Inr g
     \<and> (\<forall>b. heap c' b = (if Some b \<in> set ps \<and> ip (heap c b) = []
                           then (heap c b)\<lparr> ip := g \<rparr> else heap c b))"
  using assms
proof (induction ps arbitrary: c)
  case Nil
  then show ?case by simp
next
  case (Cons q ps)
  then obtain p where q: "q = Some p" by (cases q) auto
  show ?case
  proof (cases "ip (heap c p) = []")
    case True
    let ?c1 = "modify p (\<lambda>ob. ob\<lparr> ip := g \<rparr>) c"
    have g1: "getIP ?c1 n = Inr g" using Cons.prems(1) True by (rule getIP_modify_stable)
    from Cons.IH [OF g1] Cons.prems(2) obtain c' where
      c': "validate_loop n ps ?c1 = Inr c'" "tree c' = tree ?c1" "nxt c' = nxt ?c1"
          "getIP c' n = Inr g"
          "\<forall>b. heap c' b = (if Some b \<in> set ps \<and> ip (heap ?c1 b) = []
                           then (heap ?c1 b)\<lparr> ip := g \<rparr> else heap ?c1 b)"
      by auto
    have "validate_loop n (q # ps) c = Inr c'"
      using True Cons.prems(1) c'(1) q by simp
    moreover have "tree c' = tree c" "nxt c' = nxt c" using c'(2,3) by (simp_all add: modify_def)
    moreover have "\<forall>b. heap c' b = (if Some b \<in> set (q # ps) \<and> ip (heap c b) = []
                           then (heap c b)\<lparr> ip := g \<rparr> else heap c b)"
      using c'(5) True q by (auto simp: modify_def)
    ultimately show ?thesis using c'(4) by blast
  next
    case False
    from Cons.IH [OF Cons.prems(1)] Cons.prems(2) obtain c' where
      c': "validate_loop n ps c = Inr c'" "tree c' = tree c" "nxt c' = nxt c"
          "getIP c' n = Inr g"
          "\<forall>b. heap c' b = (if Some b \<in> set ps \<and> ip (heap c b) = []
                           then (heap c b)\<lparr> ip := g \<rparr> else heap c b)"
      by auto
    have "validate_loop n (q # ps) c = Inr c'" using False c'(1) q by simp
    moreover have "\<forall>b. heap c' b = (if Some b \<in> set (q # ps) \<and> ip (heap c b) = []
                           then (heap c b)\<lparr> ip := g \<rparr> else heap c b)"
      using c'(5) False q by auto
    ultimately show ?thesis using c'(2,3,4) by blast
  qed
qed

lemma getIP_defined:
  assumes "map_of (tree c) n = Some a" and "map_of (tree c) rootNode = Some r"
  shows "\<exists>g. getIP c n = Inr g"
  using assms by (simp add: getIP_def)

text \<open>
  C8.  In a tree that holds node N and the root, \<open>validate\<close> on N returns N's source list
  as it was (same pointers, same number, same order); every source object whose ip was
  empty gets N's resolved ip, and nothing else in the store changes: an ip that was set
  is kept, and so is every other field of every object.
\<close>

theorem validate_fills_empty_ip_only:
  assumes "map_of (tree c) n = Some a" and "map_of (tree c) rootNode = Some r"
    and "None \<notin> set (Objects_x (heap c a))"
  shows "\<exists>g c'. getIP c n = Inr g
     \<and> validate c n = Inr (Objects_x (heap c a), c')
     \<and> tree c' = tree c
     \<and> (\<forall>b. heap c' b = (if Some b \<in> set (Objects_x (heap c a)) \<and> ip (heap c b) = []
                           then (heap c b)\<lparr> ip := g \<rparr> else heap c b))"
proof -
  obtain g where g: "getIP c n = Inr g" using getIP_defined [OF assms(1,2)] by blast
  obtain c' where c': "validate_loop n (Objects_x (heap c a)) c = Inr c'" "tree c' = tree c"
      "\<forall>b. heap c' b = (if Some b \<in> set (Objects_x (heap c a)) \<and> ip (heap c b) = []
                           then (heap c b)\<lparr> ip := g \<rparr> else heap c b)"
    using validate_loop_result [OF g assms(3)] by blast
  have "Objects_x (heap c' a) = Objects_x (heap c a)" using c'(3) by simp
  then have "validate c n = Inr (Objects_x (heap c a), c')"
    using assms(1) c'(1) by (simp add: validate_def)
  then show ?thesis using g c'(2,3) by blast
qed

theorem validate_fills_empty_ip_only_witness:
  "map_of (tree cfgSrc) ''domains'' = Some 1 \<and> map_of (tree cfgSrc) rootNode = Some 0
   \<and> None \<notin> set (Objects_x (heap cfgSrc 1))
   \<and> (\<exists>c'. validate cfgSrc ''domains'' = Inr ([Some 2, Some 3], c')
        \<and> heap c' 2 = newObject\<lparr> name := ''first'', ltype := ''url'', ip := ''0.0.0.0'' \<rparr>
        \<and> heap c' 3 = newObject\<lparr> name := ''second'', ltype := ''file'', ip := ''10.0.0.1'' \<rparr>)"
proof -
  have h1: "map_of (tree cfgSrc) ''domains'' = Some 1" by (simp add: cfgSrc_def)
  have h2: "map_of (tree cfgSrc) rootNode = Some 0" by (simp add: cfgSrc_def rootNode_def)
  have h3: "None \<notin> set (Objects_x (heap cfgSrc 1))" by (simp add: cfgSrc_def newObject_def)
  have g: "getIP cfgSrc ''domains'' = Inr ''0.0.0.0''"
    by (simp add: getIP_def cfgSrc_def rootNode_def newObject_def)
  have x: "Objects_x (heap cfgSrc 1) = [Some 2, Some 3]" by (simp add: cfgSrc_def newObject_def)
  have v2: "heap cfgSrc 2 = newObject\<lparr> name := ''first'', ltype := ''url'' \<rparr>"
    and v3: "heap cfgSrc 3 = newObject\<lparr> name := ''second'', ltype := ''file'', ip := ''10.0.0.1'' \<rparr>"
    by (simp_all add: cfgSrc_def)
  from validate_fills_empty_ip_only [OF h1 h2 h3] g x obtain c' where
    c': "validate cfgSrc ''domains'' = Inr ([Some 2, Some 3], c')"
        "\<forall>b. heap c' b = (if Some b \<in> set [Some 2, Some 3] \<and> ip (heap cfgSrc b) = []
                           then (heap cfgSrc b)\<lparr> ip := ''0.0.0.0'' \<rparr> else heap cfgSrc b)"
    by auto
  have "heap c' 2 = newObject\<lparr> name := ''first'', ltype := ''url'', ip := ''0.0.0.0'' \<rparr>"
    using c'(2) v2 by (simp add: newObject_def)
  moreover have "heap c' 3 = newObject\<lparr> name := ''second'', ltype := ''file'', ip := ''10.0.0.1'' \<rparr>"
    using c'(2) v3 by (simp add: newObject_def)
  ultimately show ?thesis using h1 h2 h3 c'(1) by blast
qed

section \<open>The parser: what a line leaves unchanged\<close>

lemma tree_modify [simp]: "tree (modify a f c) = tree c"
  by (simp add: modify_def)

lemma nxt_modify [simp]: "nxt (modify a f c) = nxt c"
  by (simp add: modify_def)

lemma withNode_tree: "withNode s f = Inr s' \<Longrightarrow> tree (cfg s') = tree (cfg s)"
  by (auto simp: withNode_def split: option.splits)

lemma withSrc_tree: "withSrc s f = Inr s' \<Longrightarrow> tree (cfg s') = tree (cfg s)"
  by (auto simp: withSrc_def split: option.splits)

lemma addSource_tree: "addSource s f = Inr s' \<Longrightarrow> tree (cfg s') = tree (cfg s)"
  by (auto simp: addSource_def Let_def split: option.splits)

lemma caseNAME_tree: "caseNAME g s = Inr s' \<Longrightarrow> tree (cfg s') = tree (cfg s)"
  by (auto simp: caseNAME_def split: if_splits dest: withSrc_tree addSource_tree)

lemma lineTail_tree: "lineTail l s = Inr s' \<Longrightarrow> tree (cfg s') = tree (cfg s)"
  by (auto simp: lineTail_def caseRBRC_def Let_def split: option.splits if_splits dest: caseNAME_tree)

lemma caseLEAF_tree: "tree (cfg (caseLEAF hp g s)) = tree (cfg s)"
  by (simp add: caseLEAF_def Let_def alloc_def)

lemma update_not_Nil: "AList.update k v al \<noteq> []"
  by (cases al) auto

lemma readLine_tree_empty:
  assumes "readLine hp l s = Inr s'"
  shows "(tree (cfg s') = []) = (tree (cfg s) = [] \<and> \<not> nodeOpen l)"
proof (cases "nodeOpen l")
  case True
  then obtain g where "MLTI l = None" "NODE l = Some g" by (auto simp: nodeOpen_def)
  then have "s' = caseNODE g s" using assms by (simp add: readLine_def)
  then show ?thesis using True by (simp add: caseNODE_def alloc_def update_not_Nil)
next
  case False
  have "tree (cfg s') = tree (cfg s)"
  proof (cases "MLTI l")
    case (Some g)
    then show ?thesis using assms
      by (auto simp: readLine_def caseMLTI_def split: if_splits dest: withNode_tree)
  next
    case None
    then have nd: "NODE l = None" using False by (simp add: nodeOpen_def)
    show ?thesis using assms None nd
      by (auto simp: readLine_def caseDSBL_def caseIPBH_def caseLEAF_tree
               split: option.splits if_splits dest: withNode_tree lineTail_tree)
  qed
  then show ?thesis using False by simp
qed

lemma scanLines_tree_empty:
  "scanLines hp ls s = Inr s' \<Longrightarrow>
     (tree (cfg s') = []) = (tree (cfg s) = [] \<and> \<not> (\<exists>l \<in> set ls. nodeOpen l))"
proof (induction ls arbitrary: s)
  case Nil
  then show ?case by simp
next
  case (Cons l ls)
  then obtain s1 where s1: "readLine hp l s = Inr s1" "scanLines hp ls s1 = Inr s'"
    by (auto split: sum.splits)
  show ?case using Cons.IH [OF s1(2)] readLine_tree_empty [OF s1(1)] by auto
qed

lemma treeLen_zero: "(treeLen c < 1) = (tree c = [])"
  by (cases "tree c") (auto simp: treeLen_def)

lemma heap_modify: "heap (modify a f c) b = (if b = a then f (heap c a) else heap c b)"
  by (simp add: modify_def)

lemma snd_set_update: "snd ` set (AList.update k v al) \<subseteq> insert v (snd ` set al)"
  by (induction al) auto

lemma scanInv_frame:
  assumes "scanInv s" and "tree (cfg s') = tree (cfg s)" and "nxt (cfg s') = nxt (cfg s)"
    and "o_ptr s' = o_ptr s" and "nodes s \<noteq> [] \<longrightarrow> nodes s' \<noteq> []"
  shows "scanInv s'"
  using assms unfolding scanInv_def by (auto split: option.splits)

lemma withNode_frame:
  assumes "withNode s f = Inr s'"
  shows "tree (cfg s') = tree (cfg s) \<and> nxt (cfg s') = nxt (cfg s) \<and> o_ptr s' = o_ptr s
       \<and> nodes s' = nodes s"
  using assms by (auto simp: withNode_def split: option.splits)

lemma withSrc_frame:
  assumes "withSrc s f = Inr s'"
  shows "tree (cfg s') = tree (cfg s) \<and> nxt (cfg s') = nxt (cfg s) \<and> o_ptr s' = o_ptr s
       \<and> nodes s' = nodes s"
  using assms by (auto simp: withSrc_def split: option.splits)

lemma addSource_frame:
  assumes "addSource s f = Inr s'"
  shows "tree (cfg s') = tree (cfg s) \<and> nxt (cfg s') = nxt (cfg s) \<and> o_ptr s' = o_ptr s
       \<and> nodes s' = nodes s"
  using assms by (auto simp: addSource_def Let_def split: option.splits)

lemma caseNAME_frame:
  assumes "caseNAME g s = Inr s'"
  shows "tree (cfg s') = tree (cfg s) \<and> nxt (cfg s') = nxt (cfg s) \<and> o_ptr s' = o_ptr s
       \<and> nodes s' = nodes s"
  using assms withSrc_frame [of s _ s'] addSource_frame [of s _ s']
  by (simp add: caseNAME_def split: if_splits)

lemma caseRBRC_frame:
  "tree (cfg (caseRBRC s)) = tree (cfg s) \<and> nxt (cfg (caseRBRC s)) = nxt (cfg s)
   \<and> o_ptr (caseRBRC s) = o_ptr s \<and> (nodes s \<noteq> [] \<longrightarrow> nodes (caseRBRC s) \<noteq> [])"
  by (cases "nodes s" rule: rev_cases) (auto simp: caseRBRC_def Let_def)

lemma lineTail_frame:
  assumes "lineTail l s = Inr s'"
  shows "tree (cfg s') = tree (cfg s) \<and> nxt (cfg s') = nxt (cfg s) \<and> o_ptr s' = o_ptr s
       \<and> (nodes s \<noteq> [] \<longrightarrow> nodes s' \<noteq> [])"
proof (cases "NAME l")
  case (Some g)
  then show ?thesis using assms caseNAME_frame [of g s s'] by (simp add: lineTail_def)
next
  case None
  then show ?thesis using assms caseRBRC_frame [of s]
    by (auto simp: lineTail_def split: if_splits)
qed

lemma scanInv_caseNODE: "scanInv s \<Longrightarrow> scanInv (caseNODE g s)"
proof -
  assume inv: "scanInv s"
  let ?t = "AList.update g (nxt (cfg s)) (tree (cfg s))"
  have sub: "snd ` set ?t \<subseteq> insert (nxt (cfg s)) (snd ` set (tree (cfg s)))"
    by (rule snd_set_update)
  have lt: "\<forall>a \<in> snd ` set (tree (cfg s)). a < nxt (cfg s)" using inv by (simp add: scanInv_def)
  have 1: "\<forall>a \<in> snd ` set ?t. a < Suc (nxt (cfg s))"
  proof
    fix a assume "a \<in> snd ` set ?t"
    then have "a = nxt (cfg s) \<or> a \<in> snd ` set (tree (cfg s))" using sub by blast
    then show "a < Suc (nxt (cfg s))" using lt less_Suc_eq by blast
  qed
  have 2: "\<And>p. o_ptr s = Some p \<Longrightarrow> p < Suc (nxt (cfg s)) \<and> p \<notin> snd ` set ?t"
  proof -
    fix p assume p: "o_ptr s = Some p"
    then have "p < nxt (cfg s)" "p \<notin> snd ` set (tree (cfg s))"
      using inv by (simp_all add: scanInv_def)
    then show "p < Suc (nxt (cfg s)) \<and> p \<notin> snd ` set ?t" using sub by auto
  qed
  show "scanInv (caseNODE g s)"
    unfolding scanInv_def using 1 2
    by (simp add: caseNODE_def alloc_def split: option.splits)
qed

lemma scanInv_caseLEAF: "scanInv s \<Longrightarrow> scanInv (caseLEAF hp g s)"
proof -
  assume inv: "scanInv s"
  have lt: "\<forall>a \<in> snd ` set (tree (cfg s)). a < nxt (cfg s)" using inv by (simp add: scanInv_def)
  then have fresh: "nxt (cfg s) \<notin> snd ` set (tree (cfg s))" by blast
  have em: "tree (cfg s) = [] \<or> nodes s \<noteq> []" using inv by (simp add: scanInv_def)
  show "scanInv (caseLEAF hp g s)"
  proof (cases "fst g = src")
    case True
    then show ?thesis unfolding scanInv_def using lt fresh
      by (simp add: caseLEAF_def alloc_def Let_def less_Suc_eq)
  next
    case False
    then show ?thesis using inv unfolding scanInv_def
      by (auto simp: caseLEAF_def Let_def split: option.splits)
  qed
qed

lemma scanInv_readLine:
  assumes "scanInv s" and "readLine hp l s = Inr s'"
  shows "scanInv s'"
proof (cases "MLTI l")
  case (Some g)
  then have "caseMLTI g s = Inr s'" using assms(2) by (simp add: readLine_def)
  then show ?thesis using assms(1) withNode_frame [of s _ s'] scanInv_frame [of s s']
    by (auto simp: caseMLTI_def split: if_splits)
next
  case m: None
  show ?thesis
  proof (cases "NODE l")
    case (Some g)
    then show ?thesis using m assms scanInv_caseNODE [of s g] by (simp add: readLine_def)
  next
    case n: None
    show ?thesis
    proof (cases "LEAF l")
      case (Some g)
      then show ?thesis using m n assms scanInv_caseLEAF [of s hp g] by (simp add: readLine_def)
    next
      case lf: None
      show ?thesis
      proof (cases "DSBL l")
        case (Some g)
        then have "withNode s (\<lambda>ob. ob\<lparr> disabled := strToBool hp g \<rparr>) = Inr s'"
          using m n lf assms(2) by (simp add: readLine_def caseDSBL_def)
        then show ?thesis using assms(1) withNode_frame [of s _ s'] scanInv_frame [of s s']
          by auto
      next
        case d: None
        have "lineTail l s = Inr s' \<or> (\<exists>g. withNode s (\<lambda>ob. ob\<lparr> ip := g \<rparr>) = Inr s')"
          using m n lf d assms(2)
          by (auto simp: readLine_def caseIPBH_def split: option.splits if_splits)
        then show ?thesis
          using assms(1) withNode_frame [of s _ s'] lineTail_frame [of l s s']
            scanInv_frame [of s s']
          by auto
      qed
    qed
  qed
qed

lemma scanInv_scanLines: "scanInv s \<Longrightarrow> scanLines hp ls s = Inr s' \<Longrightarrow> scanInv s'"
proof (induction ls arbitrary: s)
  case Nil
  then show ?case by simp
next
  case (Cons l ls)
  then obtain s1 where s1: "readLine hp l s = Inr s1" "scanLines hp ls s1 = Inr s'"
    by (auto split: sum.splits)
  show ?case using Cons.IH [OF scanInv_readLine [OF Cons.prems(1) s1(1)] s1(2)] .
qed

lemma scanInv_init: "scanInv (initScan emptyConfig)"
  by (simp add: scanInv_def initScan_def emptyConfig_def)

lemma withSrc_node_ip:
  assumes "withSrc s f = Inr s'" and "o_ptr s \<noteq> Some a"
  shows "ip (heap (cfg s') a) = ip (heap (cfg s) a)"
  using assms by (auto simp: withSrc_def heap_modify split: option.splits)

lemma addSource_node_ip:
  assumes "addSource s f = Inr s'" and "o_ptr s \<noteq> Some a"
  shows "ip (heap (cfg s') a) = ip (heap (cfg s) a)"
  using assms by (auto simp: addSource_def Let_def heap_modify split: option.splits)

lemma lineTail_node_ip:
  assumes "lineTail l s = Inr s'" and "o_ptr s \<noteq> Some a"
  shows "ip (heap (cfg s') a) = ip (heap (cfg s) a)"
  using assms
  by (auto simp: lineTail_def caseNAME_def caseRBRC_def Let_def split: option.splits if_splits
           dest: withSrc_node_ip addSource_node_ip)

lemma lineTail_defined:
  assumes "o_ptr s \<noteq> None" and "map_of (tree (cfg s)) (tnode s) \<noteq> None"
  shows "\<exists>s'. lineTail l s = Inr s'"
  using assms
  by (auto simp: lineTail_def caseNAME_def withSrc_def addSource_def Let_def split: option.splits)


section \<open>Close-brace lines\<close>

text \<open>
  C7.  A close-brace line never faults: with more than one entry on the context stack it
  pops the last entry and the current node becomes the new top; with an empty stack or a
  single entry it changes nothing.  A non-empty stack stays non-empty, and the scan goes
  on with the following lines.
\<close>

theorem close_brace_pops_or_skips:
  assumes "closeBrace l"
  shows "readLine hp l s =
           Inr (if length (nodes s) > 1
                then s\<lparr> nodes := butlast (nodes s), tnode := last (butlast (nodes s)) \<rparr>
                else s)
       \<and> (\<forall>s'. readLine hp l s = Inr s' \<and> nodes s \<noteq> [] \<longrightarrow> nodes s' \<noteq> [])
       \<and> (\<forall>ls. scanLines hp (l # ls) s = scanLines hp ls (caseRBRC s))"
proof -
  have r: "readLine hp l s = Inr (caseRBRC s)"
    using assms by (simp add: closeBrace_def readLine_def lineTail_def)
  have n: "nodes s \<noteq> [] \<Longrightarrow> nodes (caseRBRC s) \<noteq> []"
    by (cases "nodes s" rule: rev_cases) (auto simp: caseRBRC_def Let_def)
  show ?thesis using r n by (auto simp: caseRBRC_def Let_def)
qed


theorem close_brace_pops_or_skips_witness:
  "closeBrace lineBrace
   \<and> readLine someHelpers lineBrace scanDeep
       = Inr (scanDeep\<lparr> nodes := [''blacklist''], tnode := ''blacklist'' \<rparr>)"
  using close_brace_pops_or_skips [of lineBrace someHelpers scanDeep]
  by (simp add: closeBrace_def lineBrace_def noMatch_def scanDeep_def)

section \<open>The empty-configuration error\<close>

text \<open>
  C1 as stated fails: a first line \<open>exclude example.org\<close> is an input without node-open
  lines, and \<open>ReadCfg\<close> does not return the empty-configuration error on it; the write to
  \<open>c.tree[tnode].exc\<close> dereferences nil.
\<close>

theorem ReadCfg_exclude_first_counterexample:
  "\<not> nodeOpen (lineExclude ''example.org'')
   \<and> ReadCfg someHelpers emptyConfig [lineExclude ''example.org''] = Inl NilPointerDereference
   \<and> ReadCfg someHelpers emptyConfig [lineExclude ''example.org''] \<noteq> Inl EmptyConfiguration"
  by (simp add: nodeOpen_def lineExclude_def noMatch_def ReadCfg_def readLine_def caseMLTI_def
        withNode_def initScan_def emptyConfig_def)


text \<open>
  C1, amended.  For every line sequence whose scan completes (no run-time fault), started
  on an empty tree: \<open>ReadCfg\<close> returns the empty-configuration error if and only if the
  tree has zero nodes after the scan, which is the case if and only if no line was a
  node-open line; with at least one node-open line it succeeds with the filled tree.
\<close>

theorem ReadCfg_empty_iff_no_node:
  assumes "scanLines hp ls (initScan c) = Inr s" and "tree c = []"
  shows "(ReadCfg hp c ls = Inl EmptyConfiguration) = (treeLen (cfg s) = 0)
       \<and> (treeLen (cfg s) = 0) = (\<not> (\<exists>l \<in> set ls. nodeOpen l))
       \<and> ((\<exists>l \<in> set ls. nodeOpen l) \<longrightarrow> ReadCfg hp c ls = Inr (cfg s))
       \<and> (\<not> (\<exists>l \<in> set ls. nodeOpen l) \<longrightarrow> ReadCfg hp c ls = Inl EmptyConfiguration)"
proof -
  have t: "(tree (cfg s) = []) = (\<not> (\<exists>l \<in> set ls. nodeOpen l))"
    using scanLines_tree_empty [OF assms(1)] assms(2) by (simp add: initScan_def)
  have z: "(treeLen (cfg s) = 0) = (tree (cfg s) = [])"
    using treeLen_zero [of "cfg s"] by simp
  show ?thesis using assms(1) t z by (auto simp: ReadCfg_def)
qed


theorem ReadCfg_empty_iff_no_node_witness:
  "scanLines someHelpers [lineNode ''blacklist''] (initScan emptyConfig) = Inr scanRoot
   \<and> tree emptyConfig = []
   \<and> ReadCfg someHelpers emptyConfig [lineNode ''blacklist''] = Inr (cfg scanRoot)"
proof -
  have h1: "scanLines someHelpers [lineNode ''blacklist''] (initScan emptyConfig) = Inr scanRoot"
    by (simp add: readLine_def lineNode_def noMatch_def scanRoot_def)
  have h2: "tree emptyConfig = []" by (simp add: emptyConfig_def)
  have n: "nodeOpen (lineNode ''blacklist'')" by (simp add: nodeOpen_def lineNode_def noMatch_def)
  show ?thesis using h1 h2 n ReadCfg_empty_iff_no_node [OF h1 h2] by simp
qed

section \<open>Repeated node openings\<close>

text \<open>
  C4 as stated fails: after \<open>domains {\<close>, \<open>exclude example.org\<close> the node \<open>domains\<close> has the
  exclude entry; after a further \<open>domains {\<close> its exclude list is empty.
\<close>

theorem node_reopened_counterexample:
  "nodeExc (ReadCfg someHelpers emptyConfig [lineNode ''domains'', lineExclude ''example.org''])
      ''domains'' = Some [''example.org'']
   \<and> nodeExc (ReadCfg someHelpers emptyConfig
        [lineNode ''domains'', lineExclude ''example.org'', lineNode ''domains''])
      ''domains'' = Some []"
  by (simp add: nodeExc_def ReadCfg_def readLine_def caseMLTI_def caseNODE_def alloc_def
        withNode_def modify_def initScan_def emptyConfig_def lineNode_def lineExclude_def
        noMatch_def treeLen_def newObject_def)


text \<open>
  C4, amended.  A node-open line for name X always binds X to a newly allocated empty
  node record (\<open>c.tree[tnode] = newObject()\<close>), whether or not X was in the tree: X's
  record after the line has no includes, excludes, sources or attributes, so a repeated
  opening resets what was accumulated for X.  The entries of the other names and all
  older objects are unchanged.
\<close>

theorem node_open_installs_fresh_node:
  assumes "MLTI l = None" and "NODE l = Some k"
  shows "\<exists>s'. readLine hp l s = Inr s' \<and> tnode s' = k \<and> nodes s' = nodes s @ [k]
     \<and> map_of (tree (cfg s')) k = Some (nxt (cfg s))
     \<and> heap (cfg s') (nxt (cfg s)) = newObject
     \<and> (\<forall>k'. k' \<noteq> k \<longrightarrow> map_of (tree (cfg s')) k' = map_of (tree (cfg s)) k')
     \<and> (\<forall>b. b \<noteq> nxt (cfg s) \<longrightarrow> heap (cfg s') b = heap (cfg s) b)"
  using assms by (simp add: readLine_def caseNODE_def alloc_def update_conv')


theorem node_open_installs_fresh_node_witness:
  "MLTI (lineNode ''domains'') = None \<and> NODE (lineNode ''domains'') = Some ''domains''
   \<and> map_of (tree (cfg scanDeep)) ''domains'' = Some 1
   \<and> (\<exists>s'. readLine someHelpers (lineNode ''domains'') scanDeep = Inr s'
         \<and> map_of (tree (cfg s')) ''domains'' = Some 2 \<and> heap (cfg s') 2 = newObject)"
proof -
  have h1: "MLTI (lineNode ''domains'') = None" by (simp add: lineNode_def noMatch_def)
  have h2: "NODE (lineNode ''domains'') = Some ''domains''" by (simp add: lineNode_def noMatch_def)
  have n: "nxt (cfg scanDeep) = 2" by (simp add: scanDeep_def cfgTwo_def)
  have t: "map_of (tree (cfg scanDeep)) ''domains'' = Some 1" by (simp add: scanDeep_def cfgTwo_def)
  show ?thesis
    using h1 h2 t node_open_installs_fresh_node [OF h1 h2, of someHelpers scanDeep] n by auto
qed

section \<open>IP lines and the source context\<close>

text \<open>
  C6.  When the scan reaches an IP line with a current node in the tree, the line sets
  that node's ip if and only if the top of the context stack is not \<open>source\<close>: with
  another top the node's ip becomes the line's value; with \<open>source\<close> on top the case is
  skipped, the line is handled by the later cases, and the node's ip is what it was.
\<close>

theorem bare_ip_sets_node_ip_unless_source:
  assumes "scanLines hp pre (initScan emptyConfig) = Inr s"
    and "ipLine l" and "IPBH l = Some v"
    and "map_of (tree (cfg s)) (tnode s) = Some a"
  shows "(last (nodes s) \<noteq> src \<longrightarrow>
            readLine hp l s = Inr (s\<lparr> cfg := modify a (\<lambda>ob. ob\<lparr> ip := v \<rparr>) (cfg s) \<rparr>)
            \<and> ip (heap (modify a (\<lambda>ob. ob\<lparr> ip := v \<rparr>) (cfg s)) a) = v)
       \<and> (last (nodes s) = src \<longrightarrow>
            (\<forall>s'. readLine hp l s = Inr s' \<longrightarrow> ip (heap (cfg s') a) = ip (heap (cfg s) a))
            \<and> (o_ptr s \<noteq> None \<longrightarrow> (\<exists>s'. readLine hp l s = Inr s')))"
proof -
  have inv: "scanInv s" using scanInv_scanLines [OF scanInv_init assms(1)] .
  have ne: "nodes s \<noteq> []" using inv assms(4) by (auto simp: scanInv_def)
  have oa: "o_ptr s \<noteq> Some a"
    using inv map_of_SomeD [OF assms(4)] by (force simp: scanInv_def split: option.splits)
  have l: "MLTI l = None" "NODE l = None" "LEAF l = None" "DSBL l = None"
    using assms(2) by (simp_all add: ipLine_def)
  have a: "last (nodes s) \<noteq> src \<Longrightarrow>
      readLine hp l s = Inr (s\<lparr> cfg := modify a (\<lambda>ob. ob\<lparr> ip := v \<rparr>) (cfg s) \<rparr>)"
    using l assms(3,4) ne by (simp add: readLine_def caseIPBH_def withNode_def)
  have b: "last (nodes s) = src \<Longrightarrow> readLine hp l s = lineTail l s"
    using l assms(3) ne by (simp add: readLine_def)
  show ?thesis
    using a b lineTail_node_ip [OF _ oa] lineTail_defined [of s l] assms(4)
    by (auto simp: heap_modify)
qed


theorem bare_ip_sets_node_ip_unless_source_witness:
  "scanLines someHelpers [lineNode ''blacklist''] (initScan emptyConfig) = Inr scanRoot
   \<and> ipLine (lineIP ''0.0.0.0'') \<and> IPBH (lineIP ''0.0.0.0'') = Some ''0.0.0.0''
   \<and> map_of (tree (cfg scanRoot)) (tnode scanRoot) = Some 0
   \<and> last (nodes scanRoot) \<noteq> src
   \<and> readLine someHelpers (lineIP ''0.0.0.0'') scanRoot
       = Inr (scanRoot\<lparr> cfg := modify 0 (\<lambda>ob. ob\<lparr> ip := ''0.0.0.0'' \<rparr>) (cfg scanRoot) \<rparr>)"
proof -
  have h1: "scanLines someHelpers [lineNode ''blacklist''] (initScan emptyConfig) = Inr scanRoot"
    by (simp add: readLine_def lineNode_def noMatch_def scanRoot_def)
  have h2: "ipLine (lineIP ''0.0.0.0'')" by (simp add: ipLine_def lineIP_def noMatch_def)
  have h3: "IPBH (lineIP ''0.0.0.0'') = Some ''0.0.0.0''" by (simp add: lineIP_def noMatch_def)
  have h4: "map_of (tree (cfg scanRoot)) (tnode scanRoot) = Some 0"
    by (simp add: scanRoot_def caseNODE_def alloc_def initScan_def emptyConfig_def)
  have h5: "last (nodes scanRoot) \<noteq> src"
    by (simp add: scanRoot_def caseNODE_def alloc_def initScan_def src_def)
  show ?thesis
    using h1 h2 h3 h4 h5 bare_ip_sets_node_ip_unless_source [OF h1 h2 h3 h4] by simp
qed

section \<open>Context-dependent lines\<close>


















section \<open>Exclusion views and the exclusion entry set\<close>

lemma dom_fold_entry:
  "dom (fold (\<lambda>k l. l(k \<mapsto> (0::int))) data m) = dom m \<union> set data"
  by (induction data arbitrary: m) auto

lemma val_fold_entry:
  "(\<forall>k \<in> dom m. m k = Some 0) \<Longrightarrow>
     \<forall>k \<in> dom (fold (\<lambda>k l. l(k \<mapsto> (0::int))) data m).
        fold (\<lambda>k l. l(k \<mapsto> (0::int))) data m k = Some 0"
proof (induction data arbitrary: m)
  case Nil
  then show ?case by simp
next
  case (Cons x xs)
  have "\<forall>k \<in> dom (m(x \<mapsto> 0)). (m(x \<mapsto> 0)) k = Some 0" using Cons.prems by auto
  from Cons.IH [OF this] show ?case by simp
qed

lemma updateEntry_keys:
  "dom (updateEntry data) = set data \<and> (\<forall>k \<in> set data. updateEntry data k = Some 0)"
  using dom_fold_entry [of data Map.empty] val_fold_entry [of Map.empty data]
  by (simp add: updateEntry_def)

lemma excludes_all_result:
  "\<forall>k \<in> set ks. map_of (tree c) k \<noteq> None \<Longrightarrow>
     \<exists>ex. excludes_all c ks acc = Inr ex
        \<and> set ex = set acc \<union> {x. \<exists>k a. k \<in> set ks \<and> map_of (tree c) k = Some a
                                      \<and> x \<in> set (exc (heap c a))}"
proof (induction ks arbitrary: acc)
  case Nil
  then show ?case by simp
next
  case (Cons k ks)
  then obtain a where a: "map_of (tree c) k = Some a" by auto
  let ?acc = "if length (exc (heap c a)) \<noteq> 0 then acc @ exc (heap c a) else acc"
  have sa: "set ?acc = set acc \<union> set (exc (heap c a))" by auto
  from Cons.IH [of ?acc] Cons.prems obtain ex where
    ex: "excludes_all c ks ?acc = Inr ex"
        "set ex = set ?acc \<union> {x. \<exists>k a. k \<in> set ks \<and> map_of (tree c) k = Some a
                                      \<and> x \<in> set (exc (heap c a))}"
    by auto
  have "excludes_all c (k # ks) acc = Inr ex" using a ex(1) by simp
  moreover have "set ex = set acc \<union> {x. \<exists>k' a. k' \<in> set (k # ks) \<and> map_of (tree c) k' = Some a
                                      \<and> x \<in> set (exc (heap c a))}"
    unfolding ex(2) sa using a by auto
  ultimately show ?case by blast
qed

lemma NodesOf_keys: "set (NodesOf c) = fst ` set (tree c)"
  by (simp add: NodesOf_def)

lemma key_present: "k \<in> fst ` set al \<Longrightarrow> map_of al k \<noteq> None"
  by (simp add: map_of_eq_None_iff)


text \<open>
  C3 as stated fails: with one exclude entry under \<open>domains\<close> and none under the root,
  the aggregate object of the root-scope exclusion view has an empty excludes field.
\<close>

theorem root_view_not_union_counterexample:
  "viewExcludes (addExc someHelpers cfgExc rootNode) = [[]]
   \<and> nodeExc (Inr cfgExc) ''domains'' = Some [''example.org'']"
  by (simp add: viewExcludes_def nodeExc_def addExc_def getIP_def alloc_def cfgExc_def
        rootNode_def domains_def hosts_def newObject_def)


text \<open>
  C3, amended.  For every tree with the root node, the root-scope exclusion view holds
  one aggregate object whose excludes field is the root node's own exclude list (and
  whose ip is the root's ip).  The union of the exclude lists of all nodes is what
  \<open>excludes()\<close>, called without node names, returns as an entry set: its keys are
  exactly the entries excluded under some node, each present once with counter 0.
\<close>

theorem root_view_has_root_excludes:
  assumes "map_of (tree c) rootNode = Some r"
  shows "addExc hp c rootNode
           = Inr ([Some (nxt c)],
                  c\<lparr> heap := (heap c)(nxt c := newObject\<lparr> desc := ExcRoots @ '' exclusions'',
                          exc := exc (heap c r), ip := ip (heap c r), ltype := ExcRoots,
                          name := ExcRoots, nType := getTypeOfStr hp ExcRoots \<rparr>),
                     nxt := Suc (nxt c) \<rparr>)
       \<and> (\<exists>e. excludes c None = Inr e
              \<and> dom e = {x. \<exists>k a. map_of (tree c) k = Some a \<and> x \<in> set (exc (heap c a))}
              \<and> (\<forall>x \<in> dom e. e x = Some 0))"
proof -
  have g: "getIP c rootNode = Inr (ip (heap c r))" using assms by (simp add: getIP_def)
  have v: "addExc hp c rootNode
           = Inr ([Some (nxt c)],
                  c\<lparr> heap := (heap c)(nxt c := newObject\<lparr> desc := ExcRoots @ '' exclusions'',
                          exc := exc (heap c r), ip := ip (heap c r), ltype := ExcRoots,
                          name := ExcRoots, nType := getTypeOfStr hp ExcRoots \<rparr>),
                     nxt := Suc (nxt c) \<rparr>)"
    using assms g by (simp add: addExc_def alloc_def rootNode_def domains_def hosts_def)
  have "\<forall>k \<in> set (NodesOf c). map_of (tree c) k \<noteq> None"
    using key_present [of _ "tree c"] by (simp add: NodesOf_keys)
  from excludes_all_result [OF this, of "[]"] obtain ex where
    ex: "excludes_all c (NodesOf c) [] = Inr ex"
        "set ex = {x. \<exists>k a. k \<in> set (NodesOf c) \<and> map_of (tree c) k = Some a
                              \<and> x \<in> set (exc (heap c a))}"
    by auto
  have "{x. \<exists>k a. k \<in> set (NodesOf c) \<and> map_of (tree c) k = Some a \<and> x \<in> set (exc (heap c a))}
      = {x. \<exists>k a. map_of (tree c) k = Some a \<and> x \<in> set (exc (heap c a))}"
  proof -
    have "\<And>k a. map_of (tree c) k = Some a \<Longrightarrow> k \<in> set (NodesOf c)"
      unfolding NodesOf_keys by (metis map_of_eq_None_iff option.distinct(1))
    then show ?thesis by blast
  qed
  then have s: "set ex = {x. \<exists>k a. map_of (tree c) k = Some a \<and> x \<in> set (exc (heap c a))}"
    using ex(2) by simp
  have "excludes c None = Inr (updateEntry ex)" using ex(1) by (simp add: excludes_def)
  then show ?thesis using v s updateEntry_keys [of ex] by auto
qed


theorem root_view_has_root_excludes_witness:
  "map_of (tree cfgExc) rootNode = Some 0
   \<and> viewExcludes (addExc someHelpers cfgExc rootNode) = [exc (heap cfgExc 0)]"
proof -
  have h: "map_of (tree cfgExc) rootNode = Some 0" by (simp add: cfgExc_def rootNode_def)
  show ?thesis using h root_view_has_root_excludes [OF h, of someHelpers]
    by (simp add: viewExcludes_def)
qed

section \<open>Inclusion views\<close>

lemma Pre_distinct: "PreDomns \<noteq> PreHosts"
  by (simp add: PreDomns_def PreHosts_def)

lemma domains_hosts: "domains \<noteq> hosts"
  by (simp add: domains_def hosts_def)

lemma GetAll_nodes_PreDomns:
  "GetAll_nodes hp (Some [PreDomns]) ns (nd, nh, ox, c) =
     (if nd \<and> domains \<in> set ns
      then (case addInc hp c domains of
              Inl e \<Rightarrow> Inl e
            | Inr (r, c') \<Rightarrow> Inr (False, nh, ox @ [r], c'))
      else Inr (nd, nh, ox, c))"
proof (induction ns arbitrary: nd ox c)
  case Nil
  then show ?case by simp
next
  case (Cons n ns)
  show ?case
  proof (cases "nd \<and> n = domains")
    case True
    then show ?thesis using Cons.IH [of False]
      by (auto split: sum.splits prod.splits)
  next
    case False
    then show ?thesis using Cons.IH [of nd ox c] by auto
  qed
qed

lemma GetAll_nodes_PreHosts:
  "GetAll_nodes hp (Some [PreHosts]) ns (nd, nh, ox, c) =
     (if nh \<and> hosts \<in> set ns
      then (case addInc hp c hosts of
              Inl e \<Rightarrow> Inl e
            | Inr (r, c') \<Rightarrow> Inr (nd, False, ox @ [r], c'))
      else Inr (nd, nh, ox, c))"
proof (induction ns arbitrary: nh ox c)
  case Nil
  then show ?case by simp
next
  case (Cons n ns)
  show ?case
  proof (cases "nh \<and> n = hosts")
    case True
    then show ?thesis using Cons.IH [of False] Pre_distinct
      by (auto split: sum.splits prod.splits)
  next
    case False
    then show ?thesis using Cons.IH [of nh ox c] Pre_distinct by auto
  qed
qed

lemma addInc_result:
  assumes "map_of (tree c) node = Some a" and "map_of (tree c) rootNode = Some r"
    and "node = domains \<or> node = hosts"
  shows "addInc hp c node =
     (if inc (heap c a) = [] then Inr (None, c)
      else Inr (Some (nxt c),
        c\<lparr> heap := (heap c)(nxt c := newObject\<lparr>
               desc := getTypeOfInt hp (if node = domains then preDomn hp else preHost hp)
                         @ '' blacklist content'',
               inc := inc (heap c a),
               ip := (if ip (heap c a) \<noteq> [] then ip (heap c a) else ip (heap c r)),
               ltype := getTypeOfInt hp (if node = domains then preDomn hp else preHost hp),
               name := ''includes.['' @ decimal (length (inc (heap c a))) @ '']'',
               nType := getTypeOfStr hp
                  (getTypeOfInt hp (if node = domains then preDomn hp else preHost hp)) \<rparr>),
            nxt := Suc (nxt c) \<rparr>))"
  using assms domains_hosts
  by (auto simp: addInc_def getIP_def alloc_def Let_def)


text \<open>
  C5 as stated fails: for a \<open>domains\<close> node without includes the view is not empty, it
  holds one nil pointer; and with settings that name no node the view is empty although
  the includes list is not.
\<close>

theorem inclusion_view_counterexample:
  "GetAll someHelpers parmsStd cfgTwo (Some [PreDomns]) = Inr ([None], cfgTwo)
   \<and> inc (heap cfgInc 1) = [''adsrvr.org'', ''doubleclick.net'']
   \<and> GetAll someHelpers parmsNone cfgInc (Some [PreDomns]) = Inr ([], cfgInc)"
  by (simp add: GetAll_def GetAll_nodes_PreDomns addInc_def parmsStd_def parmsNone_def
        cfgTwo_def cfgInc_def domains_def newObject_def)


text \<open>
  C5, amended.  For every tree that holds the scope's node (\<open>domains\<close> or \<open>hosts\<close>) and
  the root, with the scope among the node names of the settings: the
  preconfigured-inclusion view of the scope contains an aggregate object exactly when
  the node's includes list is non-empty.  The object is then the only entry of the view;
  its name is \<open>includes.[n]\<close> with n the number of included entries, its includes are
  the node's, its ip is the node's resolved ip, and its type tag is the label that
  \<open>getType\<close> gives for \<open>preDomn\<close> or \<open>preHost\<close> respectively.
\<close>

theorem inclusion_view_object_iff_includes:
  assumes "map_of (tree c) node = Some a" and "map_of (tree c) rootNode = Some r"
    and "node = domains \<or> node = hosts" and "node \<in> set (Nodes p)"
  shows "\<exists>ox c'. GetAll hp p c (Some [if node = domains then PreDomns else PreHosts]) = Inr (ox, c')
     \<and> ((\<exists>b. Some b \<in> set ox) = (inc (heap c a) \<noteq> []))
     \<and> (inc (heap c a) \<noteq> [] \<longrightarrow>
          ox = [Some (nxt c)]
          \<and> name (heap c' (nxt c)) = ''includes.['' @ decimal (length (inc (heap c a))) @ '']''
          \<and> inc (heap c' (nxt c)) = inc (heap c a)
          \<and> ltype (heap c' (nxt c))
              = getTypeOfInt hp (if node = domains then preDomn hp else preHost hp)
          \<and> nType (heap c' (nxt c)) = getTypeOfStr hp (ltype (heap c' (nxt c)))
          \<and> getIP c node = Inr (ip (heap c' (nxt c))))"
proof (cases "node = domains")
  case True
  have d: "domains \<in> set (Nodes p)" using assms(4) True by simp
  show ?thesis
    using True d addInc_result [OF assms(1,2,3), of hp] assms(1,2)
    by (auto simp: GetAll_def GetAll_nodes_PreDomns getIP_def newObject_def)
next
  case False
  then have h: "node = hosts" using assms(3) by simp
  have d: "hosts \<in> set (Nodes p)" using assms(4) h by simp
  show ?thesis
    using False h d addInc_result [OF assms(1,2,3), of hp] assms(1,2) domains_hosts
    by (auto simp: GetAll_def GetAll_nodes_PreHosts getIP_def newObject_def)
qed


theorem inclusion_view_object_iff_includes_witness:
  "map_of (tree cfgInc) domains = Some 1 \<and> map_of (tree cfgInc) rootNode = Some 0
   \<and> domains \<in> set (Nodes parmsStd) \<and> inc (heap cfgInc 1) \<noteq> []
   \<and> (\<exists>c'. GetAll someHelpers parmsStd cfgInc (Some [PreDomns]) = Inr ([Some 2], c')
         \<and> name (heap c' 2) = ''includes.[2]'' \<and> ltype (heap c' 2) = PreDomns)"
proof -
  have h1: "map_of (tree cfgInc) domains = Some 1" by (simp add: cfgInc_def domains_def)
  have h2: "map_of (tree cfgInc) rootNode = Some 0" by (simp add: cfgInc_def rootNode_def)
  have h3: "domains = domains \<or> domains = hosts" by simp
  have h4: "domains \<in> set (Nodes parmsStd)" by (simp add: parmsStd_def)
  have i: "inc (heap cfgInc 1) = [''adsrvr.org'', ''doubleclick.net'']"
    by (simp add: cfgInc_def)
  have n: "nxt cfgInc = 2" by (simp add: cfgInc_def)
  have d: "decimal (Suc (Suc 0)) = ''2''" by (simp add: decimal.simps)
  have t: "getTypeOfInt someHelpers (preDomn someHelpers) = PreDomns"
    by (simp add: someHelpers_def)
  show ?thesis
    using h1 h2 h4 inclusion_view_object_iff_includes [OF h1 h2 h3 h4, of someHelpers] i n d t
    by auto
qed

section \<open>Suffix lookup in an entry set\<close>









end
